theory Spec2Isabelle
  imports Main
begin

section \<open>The user service of nestjs-zero\<close>

text \<open>
  The development embeds \<^verbatim>\<open>UserService\<close> (user.service.ts) together with the two
  request types it consumes (create-user.dto.ts, update-user.dto.ts).  The service keeps
  two private fields, the array \<^verbatim>\<open>users\<close> and the counter \<^verbatim>\<open>currentId\<close>; every
  method is synchronous.  A method becomes a function from the state before the call to
  its result paired with the state after the call; a thrown exception is the left
  injection of the result, and the state paired with it is the state at the moment of the
  \<^verbatim>\<open>throw\<close>.

  TypeScript's \<^verbatim>\<open>number\<close> is used by the service for integer ids only (the controller
  parses every id with \<^verbatim>\<open>ParseIntPipe\<close>, the counter starts at 1 and is only ever
  incremented), so ids and the counter are modelled as \<open>int\<close>.  A \<^verbatim>\<open>number\<close> counts exactly
  up to \<open>2 ^ 53\<close>; the embedding is about counters below that bound, which is also how
  the specification reads the counter (a plain incrementing integer, without wrap-around).
\<close>

subsection \<open>Data\<close>

text \<open>
  Modelled from the spec: the interface \<^verbatim>\<open>User\<close> (entities/user.entity.ts) is imported by
  the service but is not among the sources.  Its three properties are the ones the spec
  lists for the entity and the ones \<^verbatim>\<open>create\<close> writes: \<^verbatim>\<open>id\<close>, \<^verbatim>\<open>name\<close>, \<^verbatim>\<open>email\<close>.
  The property \<^verbatim>\<open>id\<close> is called \<open>id_user\<close> here, \<open>id\<close> being the identity function of HOL.
\<close>

text \<open>
  The values that the properties \<^verbatim>\<open>name\<close> and \<^verbatim>\<open>email\<close> hold when the program runs.  The
  interface declares them as \<^verbatim>\<open>string\<close>, and \<^verbatim>\<open>create\<close> stores strings; \<^verbatim>\<open>update\<close> stores
  whatever value the request carries, and a request can carry \<^verbatim>\<open>undefined\<close> or \<^verbatim>\<open>null\<close>
  (see \<open>UpdateUserDto\<close> below).
\<close>

datatype jsvalue = Undefined | Null | Str string

record User =
  id_user :: int
  name :: jsvalue
  email :: jsvalue

text \<open>\<^verbatim>\<open>CreateUserDto\<close>: both properties are required.\<close>

record CreateUserDto =
  name_create :: string
  email_create :: string

text \<open>
  \<^verbatim>\<open>UpdateUserDto\<close>: both properties are optional (\<^verbatim>\<open>name?: string\<close>, \<^verbatim>\<open>email?: string\<close>).
  \<open>None\<close> is a property that the request object does not have; \<open>Some v\<close> is a property
  that the object has, with value \<open>v\<close>.  An object can have a property whose value is
  \<^verbatim>\<open>undefined\<close>: the optional type \<^verbatim>\<open>name?: string\<close> admits \<^verbatim>\<open>{ name: undefined }\<close>, and
  \<^verbatim>\<open>@IsOptional()\<close> lets \<^verbatim>\<open>undefined\<close> and \<^verbatim>\<open>null\<close> pass the validation.  Such a property is
  \<open>Some Undefined\<close> or \<open>Some Null\<close>: it is there, and differs from \<open>None\<close>.  Which
  properties the object built from a request body has is decided outside the service (by
  the validation pipe and by how the class is compiled); the service takes the object as
  it comes.  The type has no \<^verbatim>\<open>id\<close> property, and the validation pipe of main.ts rejects
  a body with a property outside the type (\<^verbatim>\<open>forbidNonWhitelisted\<close>).
\<close>

record UpdateUserDto =
  name_opt :: "jsvalue option"
  email_opt :: "jsvalue option"

text \<open>\<^verbatim>\<open>NotFoundException\<close>; its argument is the id interpolated into the message.\<close>

datatype error = NotFoundException int

text \<open>The private fields of the service, and their initialisers.\<close>

record UserService =
  users :: "User list"
  currentId :: int

definition init :: UserService where
  "init = \<lparr>users = [], currentId = 1\<rparr>"

subsection \<open>Array primitives\<close>

text \<open>
  \<^verbatim>\<open>Array.prototype.findIndex\<close>: the index of the first element that satisfies the
  predicate, \<open>-1\<close> when there is none.  The auxiliary function carries the index of the
  head of the remaining list.
\<close>

fun findIndex_from :: "nat \<Rightarrow> ('a \<Rightarrow> bool) \<Rightarrow> 'a list \<Rightarrow> int" where
  "findIndex_from k P [] = - 1"
| "findIndex_from k P (x # xs) = (if P x then int k else findIndex_from (Suc k) P xs)"

definition findIndex :: "('a \<Rightarrow> bool) \<Rightarrow> 'a list \<Rightarrow> int" where
  "findIndex P xs = findIndex_from 0 P xs"

text \<open>
  \<^verbatim>\<open>Array.prototype.splice(start, deleteCount)\<close> for \<open>0 \<le> start\<close>: the array without the
  \<open>deleteCount\<close> elements from position \<open>start\<close> on.  (Positions past the end remove
  nothing, as in JavaScript.)
\<close>

definition splice :: "nat \<Rightarrow> nat \<Rightarrow> 'a list \<Rightarrow> 'a list" where
  "splice start deleteCount xs = take start xs @ drop (start + deleteCount) xs"

subsection \<open>The methods of the service\<close>

text \<open>
  \<^verbatim>\<open>create\<close>: the object literal \<^verbatim>\<open>{ id: this.currentId++, ...createUserDto }\<close> reads the
  counter, increments it, and copies the two properties of the request.
\<close>

definition create :: "CreateUserDto \<Rightarrow> UserService \<Rightarrow> User \<times> UserService" where
  "create createUserDto s =
     (let newUser = \<lparr>id_user = currentId s,
                      name = Str (name_create createUserDto),
                      email = Str (email_create createUserDto)\<rparr>;
          s1 = s\<lparr>currentId := currentId s + 1\<rparr>;
          s2 = s1\<lparr>users := users s1 @ [newUser]\<rparr>
      in (newUser, s2))"

definition findAll :: "UserService \<Rightarrow> User list \<times> UserService" where
  "findAll s = (users s, s)"

text \<open>
  \<^verbatim>\<open>findOne\<close>: \<^verbatim>\<open>Array.prototype.find\<close> is \<open>List.find\<close>, with \<open>None\<close> for \<^verbatim>\<open>undefined\<close>;
  an object is never falsy, so \<^verbatim>\<open>!user\<close> holds for \<^verbatim>\<open>undefined\<close> only.
\<close>

definition findOne :: "int \<Rightarrow> UserService \<Rightarrow> (error + User) \<times> UserService" where
  "findOne i s =
     (case find (\<lambda>user. id_user user = i) (users s) of
        None \<Rightarrow> (Inl (NotFoundException i), s)
      | Some user \<Rightarrow> (Inr user, s))"

text \<open>
  The spread \<^verbatim>\<open>{ ...user, ...updateUserDto }\<close>: the properties of the stored record,
  overwritten by the properties that the request has.  The spread copies every property
  that the request has, whatever its value: a property with value \<^verbatim>\<open>undefined\<close> or \<^verbatim>\<open>null\<close>
  overwrites the stored value as a string does.
\<close>

definition spread :: "User \<Rightarrow> UpdateUserDto \<Rightarrow> User" where
  "spread user updateUserDto =
     \<lparr>id_user = id_user user,
      name = (case name_opt updateUserDto of None \<Rightarrow> name user | Some v \<Rightarrow> v),
      email = (case email_opt updateUserDto of None \<Rightarrow> email user | Some v \<Rightarrow> v)\<rparr>"

definition update :: "int \<Rightarrow> UpdateUserDto \<Rightarrow> UserService \<Rightarrow> (error + User) \<times> UserService" where
  "update i updateUserDto s =
     (let userIndex = findIndex (\<lambda>user. id_user user = i) (users s) in
      if userIndex = - 1 then (Inl (NotFoundException i), s)
      else
        let updatedUser = spread (users s ! nat userIndex) updateUserDto;
            s1 = s\<lparr>users := (users s)[nat userIndex := updatedUser]\<rparr>
        in (Inr updatedUser, s1))"

definition remove :: "int \<Rightarrow> UserService \<Rightarrow> (error + unit) \<times> UserService" where
  "remove i s =
     (let userIndex = findIndex (\<lambda>user. id_user user = i) (users s) in
      if userIndex = - 1 then (Inl (NotFoundException i), s)
      else (Inr (), s\<lparr>users := splice (nat userIndex) 1 (users s)\<rparr>))"

subsection \<open>Sequences of calls\<close>

text \<open>
  A client of the service (the controller) calls one method after the other on the same
  instance.  An exception ends the call that raised it, not the service: the next call
  finds the state the failed call left.
\<close>

datatype call =
    Create CreateUserDto
  | FindAll
  | FindOne int
  | Update int UpdateUserDto
  | Remove int

datatype outcome =
    Created User
  | Listed "User list"
  | Found User
  | Updated User
  | Removed
  | Thrown error

fun step :: "call \<Rightarrow> UserService \<Rightarrow> outcome \<times> UserService" where
  "step (Create dto) s = (case create dto s of (u, s') \<Rightarrow> (Created u, s'))"
| "step FindAll s = (case findAll s of (us, s') \<Rightarrow> (Listed us, s'))"
| "step (FindOne i) s =
     (case findOne i s of (Inl e, s') \<Rightarrow> (Thrown e, s') | (Inr u, s') \<Rightarrow> (Found u, s'))"
| "step (Update i dto) s =
     (case update i dto s of (Inl e, s') \<Rightarrow> (Thrown e, s') | (Inr u, s') \<Rightarrow> (Updated u, s'))"
| "step (Remove i) s =
     (case remove i s of (Inl e, s') \<Rightarrow> (Thrown e, s') | (Inr _, s') \<Rightarrow> (Removed, s'))"

fun run :: "call list \<Rightarrow> UserService \<Rightarrow> outcome list \<times> UserService" where
  "run [] s = ([], s)"
| "run (c # cs) s =
     (case step c s of (out, s') \<Rightarrow> (case run cs s' of (outs, s'') \<Rightarrow> (out # outs, s'')))"

text \<open>The outcomes of a run, and the state it ends in.\<close>

definition outcomes :: "call list \<Rightarrow> outcome list" where
  "outcomes cs = fst (run cs init)"

definition final :: "call list \<Rightarrow> UserService" where
  "final cs = snd (run cs init)"

text \<open>The ids handed out by the \<^verbatim>\<open>create\<close> calls of a run, in the order of the calls.\<close>

fun created_ids :: "outcome list \<Rightarrow> int list" where
  "created_ids [] = []"
| "created_ids (Created u # outs) = id_user u # created_ids outs"
| "created_ids (_ # outs) = created_ids outs"

text \<open>The number of \<^verbatim>\<open>create\<close> calls in a sequence of calls.\<close>

fun count_creates :: "call list \<Rightarrow> nat" where
  "count_creates [] = 0"
| "count_creates (Create dto # cs) = Suc (count_creates cs)"
| "count_creates (_ # cs) = count_creates cs"

text \<open>The number of \<^verbatim>\<open>remove\<close> calls that returned, that is, did not throw.\<close>

fun count_removed :: "outcome list \<Rightarrow> nat" where
  "count_removed [] = 0"
| "count_removed (Removed # outs) = Suc (count_removed outs)"
| "count_removed (_ # outs) = count_removed outs"

text \<open>The ids passed to the \<^verbatim>\<open>remove\<close> calls that returned.\<close>

fun removed_ids :: "call list \<Rightarrow> outcome list \<Rightarrow> int list" where
  "removed_ids (Remove i # cs) (Removed # outs) = i # removed_ids cs outs"
| "removed_ids (c # cs) (out # outs) = removed_ids cs outs"
| "removed_ids _ _ = []"

text \<open>
  What holds of the two fields after any sequence of calls: every stored id is below the
  counter, and no id is stored twice.
\<close>

definition fresh_ids :: "UserService \<Rightarrow> bool" where
  "fresh_ids s =
     ((\<forall>u\<in>set (users s). id_user u < currentId s) \<and> distinct (map id_user (users s)))"

subsection \<open>Object identity\<close>

text \<open>
  The functions above pass records by value, which is what the claims about ids,
  positions and contents are about.  In JavaScript an object or an array is passed as a
  reference, and what a caller can do to the service through a value it got back depends
  on which reference that is.  The second embedding of the same methods keeps the
  references: the user objects and the array objects live in a store, a reference is the
  index of its object in the store, and a new object takes the next free index.

  The field \<^verbatim>\<open>users\<close> holds a reference to an array of references to user objects; the
  array is created by the field's initialiser \<^verbatim>\<open>[]\<close> and the field is never assigned
  again (\<^verbatim>\<open>push\<close>, the indexed assignment and \<^verbatim>\<open>splice\<close> all change the array in place).
\<close>

type_synonym ref = nat

record world =
  objects :: "User list"
  arrays :: "ref list list"
  this_users :: ref
  this_currentId :: int

definition init_ref :: world where
  "init_ref = \<lparr>objects = [], arrays = [Nil], this_users = 0, this_currentId = 1\<rparr>"

text \<open>
  \<^verbatim>\<open>create\<close>: the object literal allocates \<^verbatim>\<open>newUser\<close>; the reference is pushed and the
  same reference is returned.
\<close>

definition create_ref :: "CreateUserDto \<Rightarrow> world \<Rightarrow> ref \<times> world" where
  "create_ref createUserDto w =
     (let newUser = length (objects w);
          w1 = w\<lparr>objects := objects w @
                   [\<lparr>id_user = this_currentId w,
                     name = Str (name_create createUserDto),
                     email = Str (email_create createUserDto)\<rparr>],
                 this_currentId := this_currentId w + 1\<rparr>;
          w2 = w1\<lparr>arrays := (arrays w1)[this_users w1 := arrays w1 ! this_users w1 @ [newUser]]\<rparr>
      in (newUser, w2))"

text \<open>\<^verbatim>\<open>findAll\<close>: \<^verbatim>\<open>return this.users\<close> returns the reference held by the field.\<close>

definition findAll_ref :: "world \<Rightarrow> ref \<times> world" where
  "findAll_ref w = (this_users w, w)"

text \<open>\<^verbatim>\<open>findOne\<close>: \<^verbatim>\<open>find\<close> returns the element of the array, a reference.\<close>

definition findOne_ref :: "int \<Rightarrow> world \<Rightarrow> (error + ref) \<times> world" where
  "findOne_ref i w =
     (case find (\<lambda>user. id_user (objects w ! user) = i) (arrays w ! this_users w) of
        None \<Rightarrow> (Inl (NotFoundException i), w)
      | Some user \<Rightarrow> (Inr user, w))"

text \<open>
  \<^verbatim>\<open>update\<close>: the spread allocates \<^verbatim>\<open>updatedUser\<close>, a new object; its reference replaces
  the element at \<^verbatim>\<open>userIndex\<close> and is returned.
\<close>

definition update_ref :: "int \<Rightarrow> UpdateUserDto \<Rightarrow> world \<Rightarrow> (error + ref) \<times> world" where
  "update_ref i updateUserDto w =
     (let userIndex = findIndex (\<lambda>user. id_user (objects w ! user) = i) (arrays w ! this_users w) in
      if userIndex = - 1 then (Inl (NotFoundException i), w)
      else
        let updatedUser = length (objects w);
            w1 = w\<lparr>objects := objects w @
                     [spread (objects w ! (arrays w ! this_users w ! nat userIndex)) updateUserDto]\<rparr>;
            w2 = w1\<lparr>arrays := (arrays w1)[this_users w1 :=
                     (arrays w1 ! this_users w1)[nat userIndex := updatedUser]]\<rparr>
        in (Inr updatedUser, w2))"

definition remove_ref :: "int \<Rightarrow> world \<Rightarrow> (error + unit) \<times> world" where
  "remove_ref i w =
     (let userIndex = findIndex (\<lambda>user. id_user (objects w ! user) = i) (arrays w ! this_users w) in
      if userIndex = - 1 then (Inl (NotFoundException i), w)
      else (Inr (), w\<lparr>arrays := (arrays w)[this_users w :=
                          splice (nat userIndex) 1 (arrays w ! this_users w)]\<rparr>))"

text \<open>
  What the holder of a reference can do with it, outside the service: assign a property
  of a user object (\<^verbatim>\<open>user.name = v\<close>), and take the last element off an array (\<^verbatim>\<open>a.pop()\<close>).
\<close>

definition assign_name :: "ref \<Rightarrow> jsvalue \<Rightarrow> world \<Rightarrow> world" where
  "assign_name user v w = w\<lparr>objects := (objects w)[user := (objects w ! user)\<lparr>name := v\<rparr>]\<rparr>"

definition array_pop :: "ref \<Rightarrow> world \<Rightarrow> world" where
  "array_pop a w = w\<lparr>arrays := (arrays w)[a := butlast (arrays w ! a)]\<rparr>"

text \<open>
  The state of the service in a world: the records that the elements of its array refer
  to, and the counter.  This is the state that the first embedding works on.
\<close>

definition view :: "world \<Rightarrow> UserService" where
  "view w = \<lparr>users = map (\<lambda>user. objects w ! user) (arrays w ! this_users w),
             currentId = this_currentId w\<rparr>"

text \<open>
  References are never dangling in JavaScript: the field refers to an array of the store,
  and the elements of that array refer to user objects of the store.
\<close>

definition allocated :: "world \<Rightarrow> bool" where
  "allocated w =
     (this_users w < length (arrays w) \<and>
      (\<forall>user\<in>set (arrays w ! this_users w). user < length (objects w)))"

subsection \<open>Example requests\<close>

text \<open>The requests of the end-to-end scenario of the specification.\<close>

definition john :: CreateUserDto where
  "john = \<lparr>name_create = ''John Doe'', email_create = ''john@example.com''\<rparr>"

definition jane :: CreateUserDto where
  "jane = \<lparr>name_create = ''Jane'', email_create = ''jane@example.com''\<rparr>"

definition jonathan :: UpdateUserDto where
  "jonathan = \<lparr>name_opt = Some (Str ''Jonathan''), email_opt = None\<rparr>"

text \<open>
  A request that has both properties, neither with a string: \<^verbatim>\<open>{ name: undefined, email: null }\<close>.
\<close>

definition cleared :: UpdateUserDto where
  "cleared = \<lparr>name_opt = Some Undefined, email_opt = Some Null\<rparr>"

section \<open>Auxiliary facts\<close>

subsection \<open>\<^verbatim>\<open>findIndex\<close>, \<^verbatim>\<open>find\<close> and \<^verbatim>\<open>splice\<close>\<close>

text \<open>
  \<open>findIndex\<close> returns \<open>-1\<close> exactly when no element satisfies the predicate, and
  otherwise the position of the first element that does; \<open>find\<close> returns the element
  at that position.
\<close>

lemma findIndex_from_none: "(findIndex_from k P xs = - 1) = (\<forall>x\<in>set xs. \<not> P x)"
  by (induction xs arbitrary: k) auto

lemma findIndex_from_range:
  "findIndex_from k P xs \<noteq> - 1 \<Longrightarrow> int k \<le> findIndex_from k P xs \<and> findIndex_from k P xs < int k + int (length xs)"
  by (induction xs arbitrary: k) (auto split: if_splits, force+)

lemma findIndex_from_shift:
  "findIndex_from k P xs \<noteq> - 1 \<Longrightarrow> findIndex_from k P xs = int k + findIndex_from 0 P xs"
proof (induction xs arbitrary: k)
  case Nil then show ?case by simp
next
  case (Cons x xs)
  show ?case
  proof (cases "P x")
    case True then show ?thesis by simp
  next
    case False
    with Cons.prems have ne: "findIndex_from (Suc k) P xs \<noteq> - 1" by simp
    then have ne1: "findIndex_from (Suc 0) P xs \<noteq> - 1" by (simp add: findIndex_from_none)
    from Cons.IH[OF ne] Cons.IH[OF ne1] False show ?thesis by simp
  qed
qed

lemma findIndex_none: "(findIndex P xs = - 1) = (\<forall>x\<in>set xs. \<not> P x)"
  by (simp add: findIndex_def findIndex_from_none)

lemma findIndex_some:
  assumes "findIndex P xs \<noteq> - 1"
  shows "0 \<le> findIndex P xs" "nat (findIndex P xs) < length xs"
  using findIndex_from_range[of 0 P xs] assms by (auto simp: findIndex_def)

lemma findIndex_from_nth:
  "findIndex_from 0 P xs \<noteq> - 1 \<Longrightarrow> P (xs ! nat (findIndex_from 0 P xs)) \<and> (\<forall>j < nat (findIndex_from 0 P xs). \<not> P (xs ! j))"
proof (induction xs)
  case Nil then show ?case by simp
next
  case (Cons x xs)
  show ?case
  proof (cases "P x")
    case True then show ?thesis by simp
  next
    case False
    with Cons.prems have ne: "findIndex_from (Suc 0) P xs \<noteq> - 1" by simp
    then have ne0: "findIndex_from 0 P xs \<noteq> - 1" by (simp add: findIndex_from_none)
    have sh: "findIndex_from (Suc 0) P xs = 1 + findIndex_from 0 P xs"
      using findIndex_from_shift[OF ne] by simp
    have nn: "0 \<le> findIndex_from 0 P xs" using findIndex_from_range[OF ne0] by simp
    then have nat1: "nat (1 + findIndex_from 0 P xs) = Suc (nat (findIndex_from 0 P xs))" by simp
    from Cons.IH[OF ne0] False show ?thesis
      by (auto simp: sh nat1 less_Suc_eq_0_disj)
  qed
qed

lemma find_findIndex:
  "find P xs = (if findIndex P xs = - 1 then None else Some (xs ! nat (findIndex P xs)))"
proof (induction xs)
  case Nil then show ?case by (simp add: findIndex_def)
next
  case (Cons x xs)
  show ?case
  proof (cases "P x")
    case True then show ?thesis by (simp add: findIndex_def)
  next
    case False
    show ?thesis
    proof (cases "findIndex_from (Suc 0) P xs = - 1")
      case True
      then have "findIndex_from 0 P xs = - 1" by (simp add: findIndex_from_none)
      with True False Cons.IH show ?thesis by (simp add: findIndex_def)
    next
      case ne: False
      then have ne0: "findIndex_from 0 P xs \<noteq> - 1" by (simp add: findIndex_from_none)
      have sh: "findIndex_from (Suc 0) P xs = 1 + findIndex_from 0 P xs"
        using findIndex_from_shift[OF ne] by simp
      have nn: "0 \<le> findIndex_from 0 P xs" using findIndex_from_range[OF ne0] by simp
      then have nat1: "nat (1 + findIndex_from 0 P xs) = Suc (nat (findIndex_from 0 P xs))" by simp
      from False ne ne0 Cons.IH show ?thesis by (simp add: findIndex_def sh nat1)
    qed
  qed
qed

subsection \<open>One call\<close>

lemma fresh_ids_init: "fresh_ids init"
  by (simp add: fresh_ids_def init_def)

lemma set_splice_subset: "set (splice k n xs) \<subseteq> set xs"
  by (auto simp: splice_def dest: in_set_takeD in_set_dropD)

lemma distinct_map_splice: "distinct (map f xs) \<Longrightarrow> distinct (map f (splice k n xs))"
proof -
  assume d: "distinct (map f xs)"
  have "map f xs = map f (take k xs) @ map f (take n (drop k xs)) @ map f (drop (k + n) xs)"
    by (metis append_take_drop_id drop_drop map_append add.commute)
  with d show ?thesis by (auto simp: splice_def)
qed

lemma create_users: "users (snd (create dto s)) = users s @ [fst (create dto s)]"
  by (simp add: create_def Let_def)

lemma create_currentId: "currentId (snd (create dto s)) = currentId s + 1"
  by (simp add: create_def Let_def)

lemma create_id: "id_user (fst (create dto s)) = currentId s"
  by (simp add: create_def Let_def)

lemma findOne_state: "snd (findOne i s) = s"
  by (simp add: findOne_def split: option.splits)

lemma update_currentId: "currentId (snd (update i dto s)) = currentId s"
  by (simp add: update_def Let_def)

lemma remove_currentId: "currentId (snd (remove i s)) = currentId s"
  by (simp add: remove_def Let_def)

lemma spread_id: "id_user (spread u dto) = id_user u"
  by (simp add: spread_def)

lemma update_ids: "map id_user (users (snd (update i dto s))) = map id_user (users s)"
proof (cases "findIndex (\<lambda>user. id_user user = i) (users s) = - 1")
  case True then show ?thesis by (simp add: update_def)
next
  case False
  then show ?thesis
    by (simp add: update_def Let_def map_update spread_id list_update_same_conv findIndex_some)
qed

lemma remove_users:
  "users (snd (remove i s)) =
     (if findIndex (\<lambda>user. id_user user = i) (users s) = - 1 then users s
      else splice (nat (findIndex (\<lambda>user. id_user user = i) (users s))) 1 (users s))"
  by (simp add: remove_def Let_def)

lemma fresh_ids_create: "fresh_ids s \<Longrightarrow> fresh_ids (snd (create dto s))"
  by (auto simp: fresh_ids_def create_users create_currentId create_id)

lemma fresh_ids_update: "fresh_ids s \<Longrightarrow> fresh_ids (snd (update i dto s))"
proof -
  assume f: "fresh_ids s"
  have "id_user ` set (users (snd (update i dto s))) = id_user ` set (users s)"
    using update_ids[of i dto s] by (metis set_map)
  then have "\<forall>u\<in>set (users (snd (update i dto s))). id_user u \<in> id_user ` set (users s)"
    by blast
  with f show ?thesis
    by (auto simp: fresh_ids_def update_ids update_currentId)
qed

lemma fresh_ids_remove: "fresh_ids s \<Longrightarrow> fresh_ids (snd (remove i s))"
  using set_splice_subset[of _ 1 "users s"]
  by (auto simp: fresh_ids_def remove_users remove_currentId distinct_map_splice)

subsection \<open>Sequences of calls\<close>

text \<open>The equations of \<open>step\<close> and \<open>run\<close>, with projections in place of patterns.\<close>

lemma step_Create: "step (Create dto) s = (Created (fst (create dto s)), snd (create dto s))"
  by (simp add: case_prod_unfold)

lemma step_FindAll: "step FindAll s = (Listed (users s), s)"
  by (simp add: findAll_def)

lemma step_FindOne:
  "step (FindOne i) s = ((case fst (findOne i s) of Inl e \<Rightarrow> Thrown e | Inr u \<Rightarrow> Found u), s)"
  using findOne_state[of i s] by (cases "findOne i s") (auto split: sum.splits)

lemma step_Update:
  "step (Update i dto) s =
     ((case fst (update i dto s) of Inl e \<Rightarrow> Thrown e | Inr u \<Rightarrow> Updated u), snd (update i dto s))"
  by (cases "update i dto s") (auto split: sum.splits)

lemma step_Remove:
  "step (Remove i) s =
     ((case fst (remove i s) of Inl e \<Rightarrow> Thrown e | Inr u \<Rightarrow> Removed), snd (remove i s))"
  by (cases "remove i s") (auto split: sum.splits)

lemmas step_eqs = step_Create step_FindAll step_FindOne step_Update step_Remove

declare step.simps [simp del]

lemma fresh_ids_step: "fresh_ids s \<Longrightarrow> fresh_ids (snd (step c s))"
  by (cases c) (simp_all add: step_eqs fresh_ids_create fresh_ids_update fresh_ids_remove)

lemma run_Cons: "run (c # cs) s = (fst (step c s) # fst (run cs (snd (step c s))), snd (run cs (snd (step c s))))"
  by (simp split: prod.splits)

declare run.simps(2) [simp del]

lemma fresh_ids_run: "fresh_ids s \<Longrightarrow> fresh_ids (snd (run cs s))"
  by (induction cs arbitrary: s) (simp_all add: run_Cons fresh_ids_step)

lemma run_append:
  "run (cs @ ds) s = (fst (run cs s) @ fst (run ds (snd (run cs s))), snd (run ds (snd (run cs s))))"
  by (induction cs arbitrary: s) (simp_all add: run_Cons)

lemma length_run: "length (fst (run cs s)) = length cs"
  by (induction cs arbitrary: s) (simp_all add: run_Cons)

lemma fresh_ids_final: "fresh_ids (final cs)"
  by (simp add: final_def fresh_ids_run fresh_ids_init)

lemma step_currentId:
  "currentId (snd (step c s)) = (case c of Create dto \<Rightarrow> currentId s + 1 | _ \<Rightarrow> currentId s)"
  by (cases c) (simp_all add: step_eqs create_currentId update_currentId remove_currentId)

lemma step_created:
  "created_ids (fst (step c s) # outs) = (case c of Create dto \<Rightarrow> currentId s # created_ids outs | _ \<Rightarrow> created_ids outs)"
  by (cases c) (simp_all add: step_eqs create_id split: sum.splits)

lemma run_currentId_mono: "currentId s \<le> currentId (snd (run cs s))"
proof (induction cs arbitrary: s)
  case Nil then show ?case by simp
next
  case (Cons c cs)
  have "currentId s \<le> currentId (snd (step c s))"
    by (simp add: step_currentId split: call.splits)
  also have "\<dots> \<le> currentId (snd (run cs (snd (step c s))))" by (rule Cons.IH)
  finally show ?case by (simp add: run_Cons)
qed

lemma created_ids_run:
  "created_ids (fst (run cs s)) = [currentId s ..currentId (snd (run cs s)) - 1]"
proof (induction cs arbitrary: s)
  case Nil then show ?case by simp
next
  case (Cons c cs)
  show ?case
  proof (cases c)
    case (Create dto)
    have "currentId s + 1 \<le> currentId (snd (run cs (snd (step c s))))"
      using run_currentId_mono[of "snd (step c s)" cs] by (simp add: step_currentId Create)
    then have "[currentId s ..currentId (snd (run cs (snd (step c s)))) - 1]
       = currentId s # [currentId s + 1 ..currentId (snd (run cs (snd (step c s)))) - 1]"
      by (simp add: upto_rec1)
    with Cons.IH[of "snd (step c s)"] show ?thesis
      by (simp add: run_Cons step_created step_currentId Create)
  qed (simp_all add: run_Cons step_created step_currentId Cons.IH)
qed

lemma run_currentId: "currentId (snd (run cs s)) = currentId s + int (count_creates cs)"
  by (induction cs arbitrary: s rule: count_creates.induct) (simp_all add: run_Cons step_currentId)

subsection \<open>Present and absent ids\<close>

lemma findIndex_mem:
  "(findIndex (\<lambda>user. id_user user = i) us \<noteq> - 1) = (i \<in> id_user ` set us)"
  by (auto simp: findIndex_none)

lemma remove_fails: "i \<notin> id_user ` set (users s) \<Longrightarrow> remove i s = (Inl (NotFoundException i), s)"
  using findIndex_mem[of i "users s"] by (simp add: remove_def)

lemma remove_succeeds:
  "i \<in> id_user ` set (users s) \<Longrightarrow>
   remove i s = (Inr (), s\<lparr>users := splice (nat (findIndex (\<lambda>user. id_user user = i) (users s))) 1 (users s)\<rparr>)"
  using findIndex_mem[of i "users s"] by (simp add: remove_def)

lemma step_Remove_Removed:
  "(fst (step (Remove i) s) = Removed) = (i \<in> id_user ` set (users s))"
  by (cases "i \<in> id_user ` set (users s)") (simp_all add: step_eqs remove_fails remove_succeeds)

lemma created_ids_lower: "j \<in> set (created_ids (fst (run cs s))) \<Longrightarrow> currentId s \<le> j"
  by (simp add: created_ids_run)

subsection \<open>Counting\<close>

lemma step_length:
  "length (users (snd (step c s))) + count_removed [fst (step c s)] = length (users s) + count_creates [c]"
proof (cases c)
  case (Remove i)
  show ?thesis
  proof (cases "i \<in> id_user ` set (users s)")
    case True
    then have "nat (findIndex (\<lambda>user. id_user user = i) (users s)) < length (users s)"
      using findIndex_mem[of i "users s"] findIndex_some(2) by blast
    with True show ?thesis
      by (simp add: Remove step_eqs remove_succeeds splice_def)
  next
    case False
    then show ?thesis by (simp add: Remove step_eqs remove_fails)
  qed
next
  case (Update i dto)
  have "length (users (snd (update i dto s))) = length (users s)"
    using update_ids[of i dto s] by (metis length_map)
  then show ?thesis by (simp add: Update step_eqs split: sum.splits)
qed (simp_all add: step_eqs create_users split: sum.splits)

lemma count_removed_Cons: "count_removed (out # outs) = count_removed [out] + count_removed outs"
  by (cases out) simp_all

lemma count_creates_Cons: "count_creates (c # cs) = count_creates [c] + count_creates cs"
  by (cases c) simp_all

lemma run_length:
  "length (users (snd (run cs s))) + count_removed (fst (run cs s)) = length (users s) + count_creates cs"
proof (induction cs arbitrary: s)
  case Nil then show ?case by simp
next
  case (Cons c cs)
  have r: "count_removed (fst (run (c # cs) s)) =
      count_removed [fst (step c s)] + count_removed (fst (run cs (snd (step c s))))"
    using count_removed_Cons[of "fst (step c s)" "fst (run cs (snd (step c s)))"]
    by (simp add: run_Cons)
  have u: "users (snd (run (c # cs) s)) = users (snd (run cs (snd (step c s))))"
    by (simp add: run_Cons)
  from Cons.IH[of "snd (step c s)"] step_length[of c s] count_creates_Cons[of c cs]
  show ?case unfolding r u by linarith
qed

subsection \<open>Lookup after \<^verbatim>\<open>create\<close>, and the first position of an id\<close>

lemma find_append_new:
  "\<forall>x\<in>set xs. \<not> P x \<Longrightarrow> P y \<Longrightarrow> find P (xs @ [y]) = Some y"
  by (induction xs) simp_all

lemma findOne_create_fresh:
  assumes "fresh_ids s"
  shows "findOne (id_user (fst (create dto s))) (snd (create dto s))
         = (Inr (fst (create dto s)), snd (create dto s))"
proof -
  have "\<forall>x\<in>set (users s). \<not> id_user x = currentId s"
    using assms by (auto simp: fresh_ids_def)
  then have "find (\<lambda>user. id_user user = currentId s) (users s @ [fst (create dto s)])
      = Some (fst (create dto s))"
    by (rule find_append_new) (simp add: create_id)
  then show ?thesis
    by (simp add: findOne_def create_users create_id)
qed

lemma findIndex_nth:
  assumes "findIndex P xs \<noteq> - 1"
  shows "P (xs ! nat (findIndex P xs))" "\<forall>j < nat (findIndex P xs). \<not> P (xs ! j)"
  using findIndex_from_nth[of P xs] assms by (simp_all add: findIndex_def)

lemma splice_distinct_absent:
  assumes d: "distinct (map f xs)" and k: "k < length xs"
  shows "f (xs ! k) \<notin> f ` set (splice k 1 xs)"
proof -
  have "map f xs = map f (take k xs) @ f (xs ! k) # map f (drop (Suc k) xs)"
    using k by (metis id_take_nth_drop list.simps(9) map_append)
  with d have "distinct (map f (take k xs) @ f (xs ! k) # map f (drop (Suc k) xs))" by simp
  then have "f (xs ! k) \<notin> set (map f (take k xs)) \<union> set (map f (drop (Suc k) xs))" by auto
  then show ?thesis using k by (simp add: splice_def image_Un)
qed

lemma findOne_eq:
  "findOne i s =
     (if i \<in> id_user ` set (users s)
      then (Inr (users s ! nat (findIndex (\<lambda>user. id_user user = i) (users s))), s)
      else (Inl (NotFoundException i), s))"
  by (auto simp: findOne_def find_findIndex findIndex_none)

lemma update_fails: "i \<notin> id_user ` set (users s) \<Longrightarrow> update i dto s = (Inl (NotFoundException i), s)"
  using findIndex_mem[of i "users s"] by (simp add: update_def)

lemma update_succeeds:
  "i \<in> id_user ` set (users s) \<Longrightarrow>
   update i dto s =
     (Inr (spread (users s ! nat (findIndex (\<lambda>user. id_user user = i) (users s))) dto),
      s\<lparr>users := (users s)[nat (findIndex (\<lambda>user. id_user user = i) (users s)) :=
                 spread (users s ! nat (findIndex (\<lambda>user. id_user user = i) (users s))) dto]\<rparr>)"
  using findIndex_mem[of i "users s"] by (simp add: update_def Let_def)

lemma first_position:
  assumes "i \<in> id_user ` set (users s)"
  defines "k \<equiv> nat (findIndex (\<lambda>user. id_user user = i) (users s))"
  shows "k < length (users s)" "id_user (users s ! k) = i" "\<forall>j<k. id_user (users s ! j) \<noteq> i"
proof -
  have ne: "findIndex (\<lambda>user. id_user user = i) (users s) \<noteq> - 1"
    using assms(1) by (simp add: findIndex_mem)
  show "k < length (users s)" unfolding k_def by (rule findIndex_some(2)[OF ne])
  show "id_user (users s ! k) = i" unfolding k_def by (rule findIndex_nth(1)[OF ne])
  show "\<forall>j<k. id_user (users s ! j) \<noteq> i" unfolding k_def by (rule findIndex_nth(2)[OF ne])
qed

subsection \<open>The ids in the collection after a run\<close>

lemma filter_absent: "a \<notin> set ys \<Longrightarrow> filter (\<lambda>x. x \<noteq> a) ys = ys"
  by (induction ys) auto

lemma filter_splice_distinct:
  assumes d: "distinct (map f xs)" and k: "k < length xs"
  shows "filter (\<lambda>x. x \<noteq> f (xs ! k)) (map f xs) = map f (splice k 1 xs)"
proof -
  have eq: "map f xs = map f (take k xs) @ f (xs ! k) # map f (drop (Suc k) xs)"
    using k by (metis id_take_nth_drop list.simps(9) map_append)
  with d have "distinct (map f (take k xs) @ f (xs ! k) # map f (drop (Suc k) xs))" by simp
  then have a: "f (xs ! k) \<notin> set (map f (take k xs))"
    and b: "f (xs ! k) \<notin> set (map f (drop (Suc k) xs))" by auto
  have "filter (\<lambda>x. x \<noteq> f (xs ! k)) (map f xs)
      = filter (\<lambda>x. x \<noteq> f (xs ! k)) (map f (take k xs)) @ filter (\<lambda>x. x \<noteq> f (xs ! k)) (map f (drop (Suc k) xs))"
    by (subst eq) simp
  also have "\<dots> = map f (take k xs) @ map f (drop (Suc k) xs)"
    by (simp only: filter_absent[OF a] filter_absent[OF b])
  finally show ?thesis using k by (simp add: splice_def)
qed

lemma step_removed_ids:
  "removed_ids (c # cs) (fst (step c s) # outs) =
     (case c of Remove i \<Rightarrow> (if i \<in> id_user ` set (users s) then i # removed_ids cs outs else removed_ids cs outs)
      | _ \<Rightarrow> removed_ids cs outs)"
  by (cases c) (simp_all add: step_eqs remove_fails remove_succeeds split: sum.splits)

lemma run_live_ids:
  "fresh_ids s \<Longrightarrow>
   map id_user (users (snd (run cs s))) =
     filter (\<lambda>i. i \<notin> set (removed_ids cs (fst (run cs s))))
       (map id_user (users s) @ created_ids (fst (run cs s)))"
proof (induction cs arbitrary: s)
  case Nil
  then show ?case by simp
next
  case (Cons c cs)
  let ?s' = "snd (step c s)"
  let ?outs = "fst (run cs ?s')"
  let ?R = "set (removed_ids cs ?outs)"
  have f': "fresh_ids ?s'" using Cons.prems by (rule fresh_ids_step)
  note IH = Cons.IH[OF f']
  have run: "snd (run (c # cs) s) = snd (run cs ?s')"
    "fst (run (c # cs) s) = fst (step c s) # ?outs"
    by (simp_all add: run_Cons)
  show ?case
  proof (cases c)
    case (Create dto)
    show ?thesis
      unfolding run step_removed_ids step_created IH
      by (simp add: Create step_eqs create_users create_id)
  next
    case FindAll
    show ?thesis
      unfolding run step_removed_ids step_created IH
      by (simp add: FindAll step_eqs)
  next
    case (FindOne i)
    show ?thesis
      unfolding run step_removed_ids step_created IH
      by (simp add: FindOne step_eqs)
  next
    case (Update i dto)
    show ?thesis
      unfolding run step_removed_ids step_created IH
      by (simp add: Update step_eqs update_ids)
  next
    case (Remove i)
    show ?thesis
    proof (cases "i \<in> id_user ` set (users s)")
      case False
      show ?thesis
        unfolding run step_removed_ids step_created IH
        by (simp add: Remove step_eqs remove_fails False)
    next
      case True
      let ?k = "nat (findIndex (\<lambda>user. id_user user = i) (users s))"
      note p = first_position[OF True]
      have d: "distinct (map id_user (users s))" and lt: "i < currentId s"
        using Cons.prems True by (auto simp: fresh_ids_def)
      have us: "map id_user (users ?s') = filter (\<lambda>x. x \<noteq> i) (map id_user (users s))"
        using filter_splice_distinct[OF d p(1)] 
        by (simp add: Remove step_eqs remove_succeeds[OF True] p(2))
      have "i \<notin> set (created_ids ?outs)"
        using created_ids_lower[of i cs ?s'] lt by (auto simp: step_currentId Remove)
      then have cr: "filter (\<lambda>x. x \<noteq> i) (created_ids ?outs) = created_ids ?outs"
        by (rule filter_absent)
      have "filter (\<lambda>x. x \<notin> set (i # removed_ids cs ?outs)) (map id_user (users s) @ created_ids ?outs)
          = filter (\<lambda>x. x \<notin> ?R) (filter (\<lambda>x. x \<noteq> i) (map id_user (users s) @ created_ids ?outs))"
        by (simp add: conj_commute)
      also have "\<dots> = filter (\<lambda>x. x \<notin> ?R) (map id_user (users ?s') @ created_ids ?outs)"
        by (simp only: filter_append us cr)
      finally show ?thesis
        unfolding run step_removed_ids step_created IH
        by (simp add: Remove True)
    qed
  qed
qed

subsection \<open>The example run\<close>

lemma example_state:
  "final [Create john, Create jane] =
     \<lparr>users = [\<lparr>id_user = 1, name = Str ''John Doe'', email = Str ''john@example.com''\<rparr>,
               \<lparr>id_user = 2, name = Str ''Jane'', email = Str ''jane@example.com''\<rparr>],
      currentId = 3\<rparr>"
  by (simp add: final_def run_Cons step_eqs create_def init_def Let_def john_def jane_def)

subsection \<open>The two embeddings agree\<close>

text \<open>
  In a world without dangling references, each method of the embedding with references
  does to the view of the world what the method of the first embedding does to the state,
  and the object behind the reference it returns is the record the first embedding
  returns.
\<close>

lemma allocated_init: "allocated init_ref"
  by (simp add: allocated_def init_ref_def)

lemma view_init: "view init_ref = init"
  by (simp add: view_def init_ref_def init_def)

lemma map_nth_append_old:
  "\<forall>r\<in>set rs. r < length os \<Longrightarrow> map (\<lambda>r. (os @ ns) ! r) rs = map (\<lambda>r. os ! r) rs"
  by (simp add: nth_append)

lemma create_ref_sim:
  assumes "allocated w"
  shows "view (snd (create_ref dto w)) = snd (create dto (view w))"
    and "objects (snd (create_ref dto w)) ! fst (create_ref dto w) = fst (create dto (view w))"
    and "allocated (snd (create_ref dto w))"
  using assms
  by (auto simp: allocated_def create_ref_def create_def view_def Let_def nth_append
      map_nth_append_old less_Suc_eq)

lemma findIndex_from_map: "findIndex_from k P (map f xs) = findIndex_from k (\<lambda>x. P (f x)) xs"
  by (induction xs arbitrary: k) simp_all

lemma findIndex_map: "findIndex P (map f xs) = findIndex (\<lambda>x. P (f x)) xs"
  by (simp add: findIndex_def findIndex_from_map)

lemma find_map_deref: "find P (map f xs) = map_option f (find (\<lambda>x. P (f x)) xs)"
  by (induction xs) simp_all

lemma findOne_ref_sim:
  "snd (findOne_ref i w) = w"
  "fst (findOne i (view w)) = map_sum (\<lambda>e. e) (\<lambda>user. objects w ! user) (fst (findOne_ref i w))"
  by (simp_all add: findOne_ref_def findOne_def view_def find_map_deref split: option.splits)

lemma findOne_ref_mem: "fst (findOne_ref i w) = Inr r \<Longrightarrow> r \<in> set (arrays w ! this_users w)"
  by (auto simp: findOne_ref_def find_Some_iff split: option.splits)

lemma findIndex_deref:
  "findIndex (\<lambda>user. id_user user = i) (users (view w))
   = findIndex (\<lambda>user. id_user (objects w ! user) = i) (arrays w ! this_users w)"
  by (simp add: view_def findIndex_map)

lemma update_ref_sim:
  assumes "allocated w"
  shows "view (snd (update_ref i dto w)) = snd (update i dto (view w))"
    and "fst (update i dto (view w))
         = map_sum (\<lambda>e. e) (\<lambda>user. objects (snd (update_ref i dto w)) ! user) (fst (update_ref i dto w))"
    and "allocated (snd (update_ref i dto w))"
proof -
  let ?arr = "arrays w ! this_users w"
  let ?ix = "findIndex (\<lambda>user. id_user (objects w ! user) = i) ?arr"
  have a: "this_users w < length (arrays w)" "\<forall>r\<in>set ?arr. r < length (objects w)"
    using assms by (simp_all add: allocated_def)
  show "view (snd (update_ref i dto w)) = snd (update i dto (view w))"
  proof (cases "?ix = - 1")
    case True
    then show ?thesis by (simp add: update_ref_def update_def findIndex_deref)
  next
    case False
    from findIndex_some(2)[OF False] have k: "nat ?ix < length ?arr" .
    have "map (\<lambda>r. (objects w @ [spread (objects w ! (?arr ! nat ?ix)) dto]) ! r)
            (?arr[nat ?ix := length (objects w)])
        = (map (\<lambda>r. objects w ! r) ?arr)[nat ?ix := spread (objects w ! (?arr ! nat ?ix)) dto]"
      using a(2) k by (auto simp: list_eq_iff_nth_eq nth_list_update nth_append)
    with False a(1) k show ?thesis
      by (simp add: update_ref_def update_def findIndex_deref Let_def)
        (simp add: view_def)
  qed
  show "fst (update i dto (view w))
         = map_sum (\<lambda>e. e) (\<lambda>user. objects (snd (update_ref i dto w)) ! user) (fst (update_ref i dto w))"
  proof (cases "?ix = - 1")
    case True
    then show ?thesis by (simp add: update_ref_def update_def findIndex_deref)
  next
    case False
    from findIndex_some(2)[OF False] have k: "nat ?ix < length ?arr" .
    with False show ?thesis
      by (simp add: update_ref_def update_def findIndex_deref Let_def)
        (simp add: view_def)
  qed
  show "allocated (snd (update_ref i dto w))"
  proof (cases "?ix = - 1")
    case True
    then show ?thesis using assms by (simp add: update_ref_def)
  next
    case False
    have "set (?arr[nat ?ix := length (objects w)]) \<subseteq> insert (length (objects w)) (set ?arr)"
      by (rule set_update_subset_insert)
    with a False show ?thesis
      by (auto simp: update_ref_def Let_def allocated_def less_Suc_eq)
  qed
qed

lemma remove_ref_sim:
  assumes "allocated w"
  shows "view (snd (remove_ref i w)) = snd (remove i (view w))"
    and "fst (remove_ref i w) = fst (remove i (view w))"
    and "allocated (snd (remove_ref i w))"
proof -
  let ?arr = "arrays w ! this_users w"
  have a: "this_users w < length (arrays w)" "\<forall>r\<in>set ?arr. r < length (objects w)"
    using assms by (simp_all add: allocated_def)
  show "view (snd (remove_ref i w)) = snd (remove i (view w))"
    using a(1)
    by (simp add: remove_ref_def remove_def findIndex_deref Let_def)
      (simp add: view_def splice_def take_map drop_map)
  show "fst (remove_ref i w) = fst (remove i (view w))"
    by (simp add: remove_ref_def remove_def findIndex_deref Let_def)
  show "allocated (snd (remove_ref i w))"
    using a set_splice_subset[of _ 1 ?arr]
    by (auto simp: remove_ref_def Let_def allocated_def)
qed

lemma findAll_ref_sim:
  "snd (findAll_ref w) = w"
  "fst (findAll (view w)) = map (\<lambda>user. objects w ! user) (arrays w ! fst (findAll_ref w))"
  by (simp_all add: findAll_ref_def findAll_def view_def)

lemma example_world:
  "snd (create_ref john init_ref) =
     \<lparr>objects = [\<lparr>id_user = 1, name = Str ''John Doe'', email = Str ''john@example.com''\<rparr>],
      arrays = [0 # Nil], this_users = 0, this_currentId = 2\<rparr>"
  "fst (create_ref john init_ref) = 0"
  by (simp_all add: create_ref_def init_ref_def john_def Let_def)

lemma example_outcomes:
  "outcomes [Create john, Create jane, Remove 1, Create john] =
     [Created \<lparr>id_user = 1, name = Str ''John Doe'', email = Str ''john@example.com''\<rparr>,
      Created \<lparr>id_user = 2, name = Str ''Jane'', email = Str ''jane@example.com''\<rparr>,
      Removed,
      Created \<lparr>id_user = 3, name = Str ''John Doe'', email = Str ''john@example.com''\<rparr>]"
  by (simp add: outcomes_def run_Cons step_eqs create_def remove_def findIndex_def splice_def
      init_def Let_def john_def jane_def)

section \<open>The claims\<close>

text \<open>
  C1.  In every sequence of calls, the ids handed out by \<^verbatim>\<open>create\<close> are strictly increasing
  in the order of the calls (each is greater than every id handed out before), the first
  of them is 1, and the id passed to a \<^verbatim>\<open>remove\<close> call that returned is not handed out by
  any \<^verbatim>\<open>create\<close> call after it.
\<close>

theorem created_ids_strictly_increasing:
  "sorted_wrt (<) (created_ids (outcomes cs)) \<and>
   (created_ids (outcomes cs) \<noteq> [] \<longrightarrow> hd (created_ids (outcomes cs)) = 1) \<and>
   (outcomes (cs1 @ Remove i # cs2) ! length cs1 = Removed \<longrightarrow>
      i \<notin> set (created_ids (drop (Suc (length cs1)) (outcomes (cs1 @ Remove i # cs2)))))"
proof (intro conjI impI)
  show "sorted_wrt (<) (created_ids (outcomes cs))"
    by (simp add: outcomes_def created_ids_run)
next
  assume "created_ids (outcomes cs) \<noteq> []"
  then show "hd (created_ids (outcomes cs)) = 1"
    by (simp add: outcomes_def created_ids_run init_def upto_rec1)
next
  define s1 where "s1 = snd (run cs1 init)"
  define s2 where "s2 = snd (step (Remove i) s1)"
  have outs: "outcomes (cs1 @ Remove i # cs2) =
      fst (run cs1 init) @ fst (step (Remove i) s1) # fst (run cs2 s2)"
    by (simp add: outcomes_def run_append run_Cons s1_def s2_def)
  assume "outcomes (cs1 @ Remove i # cs2) ! length cs1 = Removed"
  with outs have "fst (step (Remove i) s1) = Removed"
    by (simp add: nth_append length_run)
  then have "i \<in> id_user ` set (users s1)" by (simp add: step_Remove_Removed)
  moreover have "fresh_ids s1" by (simp add: s1_def fresh_ids_run fresh_ids_init)
  ultimately have "i < currentId s1" by (auto simp: fresh_ids_def)
  then have lt: "i < currentId s2" by (simp add: s2_def step_currentId)
  have "drop (Suc (length cs1)) (outcomes (cs1 @ Remove i # cs2)) = fst (run cs2 s2)"
    by (simp add: outs length_run)
  moreover have "i \<notin> set (created_ids (fst (run cs2 s2)))"
    using created_ids_lower[of i cs2 s2] lt by auto
  ultimately show "i \<notin> set (created_ids (drop (Suc (length cs1)) (outcomes (cs1 @ Remove i # cs2))))"
    by simp
qed

theorem created_ids_strictly_increasing_witness:
  "created_ids (outcomes [Create john, Create jane]) \<noteq> [] \<and>
   outcomes ([Create john, Create jane] @ Remove 2 # [Create john]) ! length [Create john, Create jane]
     = Removed \<and>
   sorted_wrt (<) (created_ids (outcomes [Create john, Create jane])) \<and>
   hd (created_ids (outcomes [Create john, Create jane])) = 1 \<and>
   2 \<notin> set (created_ids (drop (Suc (length [Create john, Create jane]))
               (outcomes ([Create john, Create jane] @ Remove 2 # [Create john]))))"
proof -
  have h1: "created_ids (outcomes [Create john, Create jane]) \<noteq> []"
    by (simp add: outcomes_def run_Cons step_eqs)
  have h2: "outcomes ([Create john, Create jane] @ Remove 2 # [Create john])
              ! length [Create john, Create jane] = Removed"
    by (simp add: outcomes_def run_Cons step_eqs create_def remove_def findIndex_def splice_def
        init_def Let_def)
  from h1 h2
    created_ids_strictly_increasing
      [of "[Create john, Create jane]" "[Create john, Create jane]" 2 "[Create john]"]
  show ?thesis by blast
qed



text \<open>
  C3.  Each of \<^verbatim>\<open>findOne\<close>, \<^verbatim>\<open>update\<close> and \<^verbatim>\<open>remove\<close> throws if and only if no record of
  the collection has the id, and what it throws is \<^verbatim>\<open>NotFoundException\<close>.  When a record has
  the id, \<open>k\<close> being the position of the first one, \<^verbatim>\<open>findOne\<close> returns that record;
  \<^verbatim>\<open>update\<close> returns the merged record and stores it at \<open>k\<close>, the merged record being the
  one with id \<open>i\<close> whose \<^verbatim>\<open>name\<close> and \<^verbatim>\<open>email\<close> are those of the request where the request has
  the property and those of the stored record where it has not; and \<^verbatim>\<open>remove\<close> takes the
  record at \<open>k\<close> out, so that the collection is shorter by exactly one.
\<close>

theorem not_found_iff:
  "(isl (fst (findOne i s)) \<longleftrightarrow> i \<notin> id_user ` set (users s)) \<and>
   (isl (fst (update i dto s)) \<longleftrightarrow> i \<notin> id_user ` set (users s)) \<and>
   (isl (fst (remove i s)) \<longleftrightarrow> i \<notin> id_user ` set (users s)) \<and>
   (i \<notin> id_user ` set (users s) \<longrightarrow>
      fst (findOne i s) = Inl (NotFoundException i) \<and>
      fst (update i dto s) = Inl (NotFoundException i) \<and>
      fst (remove i s) = Inl (NotFoundException i)) \<and>
   (i \<in> id_user ` set (users s) \<longrightarrow>
      (\<exists>k < length (users s).
         id_user (users s ! k) = i \<and> (\<forall>j<k. id_user (users s ! j) \<noteq> i) \<and>
         fst (findOne i s) = Inr (users s ! k) \<and>
         fst (update i dto s) =
           Inr \<lparr>id_user = i,
                name = (case name_opt dto of None \<Rightarrow> name (users s ! k) | Some v \<Rightarrow> v),
                email = (case email_opt dto of None \<Rightarrow> email (users s ! k) | Some v \<Rightarrow> v)\<rparr> \<and>
         users (snd (update i dto s)) ! k =
           \<lparr>id_user = i,
            name = (case name_opt dto of None \<Rightarrow> name (users s ! k) | Some v \<Rightarrow> v),
            email = (case email_opt dto of None \<Rightarrow> email (users s ! k) | Some v \<Rightarrow> v)\<rparr> \<and>
         fst (remove i s) = Inr () \<and>
         users (snd (remove i s)) = take k (users s) @ drop (Suc k) (users s) \<and>
         Suc (length (users (snd (remove i s)))) = length (users s)))"
proof (intro conjI impI)
  show "isl (fst (findOne i s)) \<longleftrightarrow> i \<notin> id_user ` set (users s)"
    by (simp add: findOne_eq)
  show "isl (fst (update i dto s)) \<longleftrightarrow> i \<notin> id_user ` set (users s)"
    by (cases "i \<in> id_user ` set (users s)") (simp_all add: update_succeeds update_fails)
  show "isl (fst (remove i s)) \<longleftrightarrow> i \<notin> id_user ` set (users s)"
    by (cases "i \<in> id_user ` set (users s)") (simp_all add: remove_succeeds remove_fails)
next
  assume "i \<notin> id_user ` set (users s)"
  then show "fst (findOne i s) = Inl (NotFoundException i)"
    and "fst (update i dto s) = Inl (NotFoundException i)"
    and "fst (remove i s) = Inl (NotFoundException i)"
    by (simp_all add: findOne_eq update_fails remove_fails)
next
  assume m: "i \<in> id_user ` set (users s)"
  let ?k = "nat (findIndex (\<lambda>user. id_user user = i) (users s))"
  note p = first_position[OF m]
  show "\<exists>k < length (users s).
         id_user (users s ! k) = i \<and> (\<forall>j<k. id_user (users s ! j) \<noteq> i) \<and>
         fst (findOne i s) = Inr (users s ! k) \<and>
         fst (update i dto s) =
           Inr \<lparr>id_user = i,
                name = (case name_opt dto of None \<Rightarrow> name (users s ! k) | Some v \<Rightarrow> v),
                email = (case email_opt dto of None \<Rightarrow> email (users s ! k) | Some v \<Rightarrow> v)\<rparr> \<and>
         users (snd (update i dto s)) ! k =
           \<lparr>id_user = i,
            name = (case name_opt dto of None \<Rightarrow> name (users s ! k) | Some v \<Rightarrow> v),
            email = (case email_opt dto of None \<Rightarrow> email (users s ! k) | Some v \<Rightarrow> v)\<rparr> \<and>
         fst (remove i s) = Inr () \<and>
         users (snd (remove i s)) = take k (users s) @ drop (Suc k) (users s) \<and>
         Suc (length (users (snd (remove i s)))) = length (users s)"
  proof (intro exI[of _ ?k] conjI)
    show "?k < length (users s)" by (rule p(1))
    show "id_user (users s ! ?k) = i" by (rule p(2))
    show "\<forall>j<?k. id_user (users s ! j) \<noteq> i" by (rule p(3))
    show "fst (findOne i s) = Inr (users s ! ?k)" using m by (simp add: findOne_eq)
    show "fst (update i dto s) =
           Inr \<lparr>id_user = i,
                name = (case name_opt dto of None \<Rightarrow> name (users s ! ?k) | Some v \<Rightarrow> v),
                email = (case email_opt dto of None \<Rightarrow> email (users s ! ?k) | Some v \<Rightarrow> v)\<rparr>"
      using p(2) by (simp add: update_succeeds[OF m] spread_def)
    show "users (snd (update i dto s)) ! ?k =
           \<lparr>id_user = i,
            name = (case name_opt dto of None \<Rightarrow> name (users s ! ?k) | Some v \<Rightarrow> v),
            email = (case email_opt dto of None \<Rightarrow> email (users s ! ?k) | Some v \<Rightarrow> v)\<rparr>"
      using p(1,2) by (simp add: update_succeeds[OF m] spread_def)
    show "fst (remove i s) = Inr ()" by (simp add: remove_succeeds[OF m])
    show "users (snd (remove i s)) = take ?k (users s) @ drop (Suc ?k) (users s)"
      using p(1) by (simp add: remove_succeeds[OF m] splice_def)
    show "Suc (length (users (snd (remove i s)))) = length (users s)"
      using p(1) by (simp add: remove_succeeds[OF m] splice_def)
  qed
qed

theorem not_found_iff_witness:
  "999 \<notin> id_user ` set (users (final [Create john, Create jane])) \<and>
   fst (findOne 999 (final [Create john, Create jane])) = Inl (NotFoundException 999) \<and>
   fst (update 999 jonathan (final [Create john, Create jane])) = Inl (NotFoundException 999) \<and>
   fst (remove 999 (final [Create john, Create jane])) = Inl (NotFoundException 999) \<and>
   2 \<in> id_user ` set (users (final [Create john, Create jane])) \<and>
   fst (findOne 2 (final [Create john, Create jane]))
     = Inr \<lparr>id_user = 2, name = Str ''Jane'', email = Str ''jane@example.com''\<rparr> \<and>
   fst (update 2 jonathan (final [Create john, Create jane]))
     = Inr \<lparr>id_user = 2, name = Str ''Jonathan'', email = Str ''jane@example.com''\<rparr> \<and>
   users (snd (update 2 jonathan (final [Create john, Create jane]))) ! 1
     = \<lparr>id_user = 2, name = Str ''Jonathan'', email = Str ''jane@example.com''\<rparr> \<and>
   fst (update 2 cleared (final [Create john, Create jane]))
     = Inr \<lparr>id_user = 2, name = Undefined, email = Null\<rparr> \<and>
   fst (remove 2 (final [Create john, Create jane])) = Inr () \<and>
   users (snd (remove 2 (final [Create john, Create jane])))
     = [\<lparr>id_user = 1, name = Str ''John Doe'', email = Str ''john@example.com''\<rparr>]"
proof -
  let ?s = "final [Create john, Create jane]"
  have h1: "999 \<notin> id_user ` set (users ?s)" by (simp add: example_state)
  have h2: "2 \<in> id_user ` set (users ?s)" by (simp add: example_state)
  from not_found_iff[of 999 ?s jonathan] h1
  have absent: "fst (findOne 999 ?s) = Inl (NotFoundException 999)"
    "fst (update 999 jonathan ?s) = Inl (NotFoundException 999)"
    "fst (remove 999 ?s) = Inl (NotFoundException 999)"
    by blast+
  from not_found_iff[of 2 ?s jonathan] h2 obtain k where k: "k < length (users ?s)"
    and idk: "id_user (users ?s ! k) = 2"
    and found: "fst (findOne 2 ?s) = Inr (users ?s ! k)"
    and updated: "fst (update 2 jonathan ?s) =
           Inr \<lparr>id_user = 2,
                name = (case name_opt jonathan of None \<Rightarrow> name (users ?s ! k) | Some v \<Rightarrow> v),
                email = (case email_opt jonathan of None \<Rightarrow> email (users ?s ! k) | Some v \<Rightarrow> v)\<rparr>"
    and stored: "users (snd (update 2 jonathan ?s)) ! k =
           \<lparr>id_user = 2,
            name = (case name_opt jonathan of None \<Rightarrow> name (users ?s ! k) | Some v \<Rightarrow> v),
            email = (case email_opt jonathan of None \<Rightarrow> email (users ?s ! k) | Some v \<Rightarrow> v)\<rparr>"
    and removed: "fst (remove 2 ?s) = Inr ()"
    and rest: "users (snd (remove 2 ?s)) = take k (users ?s) @ drop (Suc k) (users ?s)"
    by blast
  have k1: "k = 1"
    using k idk by (cases k) (simp_all add: example_state)
  from found updated stored rest have present:
    "fst (findOne 2 ?s) = Inr \<lparr>id_user = 2, name = Str ''Jane'', email = Str ''jane@example.com''\<rparr>"
    "fst (update 2 jonathan ?s)
       = Inr \<lparr>id_user = 2, name = Str ''Jonathan'', email = Str ''jane@example.com''\<rparr>"
    "users (snd (update 2 jonathan ?s)) ! 1
       = \<lparr>id_user = 2, name = Str ''Jonathan'', email = Str ''jane@example.com''\<rparr>"
    "users (snd (remove 2 ?s)) = [\<lparr>id_user = 1, name = Str ''John Doe'', email = Str ''john@example.com''\<rparr>]"
    by (simp_all add: k1 example_state jonathan_def)
  from not_found_iff[of 2 ?s cleared] h2 obtain k' where
    "fst (update 2 cleared ?s) =
           Inr \<lparr>id_user = 2,
                name = (case name_opt cleared of None \<Rightarrow> name (users ?s ! k') | Some v \<Rightarrow> v),
                email = (case email_opt cleared of None \<Rightarrow> email (users ?s ! k') | Some v \<Rightarrow> v)\<rparr>"
    by blast
  then have unset: "fst (update 2 cleared ?s) = Inr \<lparr>id_user = 2, name = Undefined, email = Null\<rparr>"
    by (simp add: cleared_def)
  from h1 h2 absent present unset removed show ?thesis by simp
qed

text \<open>
  C4.  After any sequence of calls, \<^verbatim>\<open>findOne\<close> called with the id of the record that
  \<^verbatim>\<open>create\<close> has just returned returns normally, with that same record, and leaves the
  state as \<^verbatim>\<open>create\<close> left it.
\<close>

theorem findOne_after_create_reachable:
  "findOne (id_user (fst (create dto (final cs)))) (snd (create dto (final cs)))
   = (Inr (fst (create dto (final cs))), snd (create dto (final cs)))"
  by (rule findOne_create_fresh) (rule fresh_ids_final)

text \<open>
  C5.  After any sequence of calls on a new service, the length of what \<^verbatim>\<open>findAll\<close> returns
  is the number of \<^verbatim>\<open>create\<close> calls minus the number of \<^verbatim>\<open>remove\<close> calls that did not
  throw.
\<close>

theorem findAll_length:
  "int (length (fst (findAll (final cs))))
   = int (count_creates cs) - int (count_removed (outcomes cs))"
  using run_length[of cs init] by (simp add: findAll_def final_def outcomes_def init_def)

text \<open>
  C6.  After any sequence of calls on a new service, the ids of the records that \<^verbatim>\<open>findAll\<close>
  returns are the ids handed out by \<^verbatim>\<open>create\<close>, in the order in which they were handed out,
  without the ids that were removed.  \<^verbatim>\<open>findAll\<close> changes nothing; \<^verbatim>\<open>create\<close> puts the new
  record at the end; \<^verbatim>\<open>update\<close> keeps the sequence of ids, and every record with another id
  as it is; \<^verbatim>\<open>remove\<close> that throws changes nothing, and \<^verbatim>\<open>remove\<close> that returns takes one
  record out and keeps the others in their order.
\<close>

theorem findAll_insertion_order:
  "map id_user (fst (findAll (final cs)))
     = filter (\<lambda>i. i \<notin> set (removed_ids cs (outcomes cs))) (created_ids (outcomes cs)) \<and>
   snd (findAll s) = s \<and>
   fst (findAll (snd (create dto s))) = fst (findAll s) @ [fst (create dto s)] \<and>
   map id_user (fst (findAll (snd (update i upd s)))) = map id_user (fst (findAll s)) \<and>
   (\<forall>j < length (fst (findAll s)). id_user (fst (findAll s) ! j) \<noteq> i \<longrightarrow>
        fst (findAll (snd (update i upd s))) ! j = fst (findAll s) ! j) \<and>
   (i \<notin> id_user ` set (fst (findAll s)) \<longrightarrow>
        fst (findAll (snd (remove i s))) = fst (findAll s)) \<and>
   (i \<in> id_user ` set (fst (findAll s)) \<longrightarrow>
      (\<exists>k < length (fst (findAll s)).
         id_user (fst (findAll s) ! k) = i \<and>
         fst (findAll (snd (remove i s)))
           = take k (fst (findAll s)) @ drop (Suc k) (fst (findAll s))))"
proof (intro conjI allI impI)
  show "map id_user (fst (findAll (final cs)))
     = filter (\<lambda>i. i \<notin> set (removed_ids cs (outcomes cs))) (created_ids (outcomes cs))"
    using run_live_ids[OF fresh_ids_init, of cs]
    by (simp add: findAll_def final_def outcomes_def init_def)
  show "snd (findAll s) = s" by (simp add: findAll_def)
  show "fst (findAll (snd (create dto s))) = fst (findAll s) @ [fst (create dto s)]"
    by (simp add: findAll_def create_users)
  show "map id_user (fst (findAll (snd (update i upd s)))) = map id_user (fst (findAll s))"
    by (simp add: findAll_def update_ids)
  show "fst (findAll (snd (update i upd s))) ! j = fst (findAll s) ! j"
    if "j < length (fst (findAll s))" "id_user (fst (findAll s) ! j) \<noteq> i" for j
  proof (cases "i \<in> id_user ` set (users s)")
    case True
    have "nat (findIndex (\<lambda>user. id_user user = i) (users s)) \<noteq> j"
      using first_position(2)[OF True] that(2) by (auto simp: findAll_def)
    then show ?thesis by (simp add: findAll_def update_succeeds[OF True])
  next
    case False
    then show ?thesis by (simp add: findAll_def update_fails)
  qed
  show "fst (findAll (snd (remove i s))) = fst (findAll s)"
    if "i \<notin> id_user ` set (fst (findAll s))"
    using that by (simp add: findAll_def remove_fails)
  show "\<exists>k < length (fst (findAll s)).
         id_user (fst (findAll s) ! k) = i \<and>
         fst (findAll (snd (remove i s)))
           = take k (fst (findAll s)) @ drop (Suc k) (fst (findAll s))"
    if "i \<in> id_user ` set (fst (findAll s))"
  proof -
    from that have m: "i \<in> id_user ` set (users s)" by (simp add: findAll_def)
    note p = first_position[OF m]
    show ?thesis
      using p(1,2)
      by (intro exI[of _ "nat (findIndex (\<lambda>user. id_user user = i) (users s))"])
        (simp add: findAll_def remove_succeeds[OF m] splice_def)
  qed
qed

theorem findAll_insertion_order_witness:
  "2 \<in> id_user ` set (fst (findAll (final [Create john, Create jane]))) \<and>
   999 \<notin> id_user ` set (fst (findAll (final [Create john, Create jane]))) \<and>
   map id_user (fst (findAll (final [Create john, Create jane, Remove 1, Create john]))) = [2, 3] \<and>
   fst (findAll (snd (remove 999 (final [Create john, Create jane]))))
     = fst (findAll (final [Create john, Create jane])) \<and>
   fst (findAll (snd (remove 2 (final [Create john, Create jane]))))
     = [\<lparr>id_user = 1, name = Str ''John Doe'', email = Str ''john@example.com''\<rparr>] \<and>
   fst (findAll (snd (update 2 jonathan (final [Create john, Create jane])))) ! 0
     = \<lparr>id_user = 1, name = Str ''John Doe'', email = Str ''john@example.com''\<rparr>"
proof -
  let ?s = "final [Create john, Create jane]"
  let ?cs = "[Create john, Create jane, Remove 1, Create john]"
  have h1: "2 \<in> id_user ` set (fst (findAll ?s))" by (simp add: example_state findAll_def)
  have h2: "999 \<notin> id_user ` set (fst (findAll ?s))" by (simp add: example_state findAll_def)
  have h3: "0 < length (fst (findAll ?s))" "id_user (fst (findAll ?s) ! 0) \<noteq> 2"
    by (simp_all add: example_state findAll_def)
  note a = findAll_insertion_order[of ?cs ?s john 2 jonathan]
  note b = findAll_insertion_order[of ?cs ?s john 999 jonathan]
  from a have "map id_user (fst (findAll (final ?cs)))
     = filter (\<lambda>i. i \<notin> set (removed_ids ?cs (outcomes ?cs))) (created_ids (outcomes ?cs))"
    by blast
  then have c1: "map id_user (fst (findAll (final ?cs))) = [2, 3]"
    by (simp add: example_outcomes)
  from b h2 have c2: "fst (findAll (snd (remove 999 ?s))) = fst (findAll ?s)" by blast
  from a h1 obtain k where k: "k < length (fst (findAll ?s))"
    and idk: "id_user (fst (findAll ?s) ! k) = 2"
    and rest: "fst (findAll (snd (remove 2 ?s)))
           = take k (fst (findAll ?s)) @ drop (Suc k) (fst (findAll ?s))"
    by blast
  have k1: "k = 1"
    using k idk by (cases k) (simp_all add: example_state findAll_def)
  from rest have c3: "fst (findAll (snd (remove 2 ?s)))
      = [\<lparr>id_user = 1, name = Str ''John Doe'', email = Str ''john@example.com''\<rparr>]"
    by (simp add: k1 example_state findAll_def)
  from a h3 have "fst (findAll (snd (update 2 jonathan ?s))) ! 0 = fst (findAll ?s) ! 0" by blast
  then have c4: "fst (findAll (snd (update 2 jonathan ?s))) ! 0
      = \<lparr>id_user = 1, name = Str ''John Doe'', email = Str ''john@example.com''\<rparr>"
    by (simp add: example_state findAll_def)
  from h1 h2 c1 c2 c3 c4 show ?thesis by blast
qed

text \<open>
  C7.  After any sequence of calls, if the collection holds a record with id \<open>i\<close> then
  \<^verbatim>\<open>remove\<close> called with \<open>i\<close> returns normally, and \<^verbatim>\<open>remove\<close> called with \<open>i\<close> again,
  right after, throws \<^verbatim>\<open>NotFoundException\<close>.
\<close>

theorem remove_twice:
  assumes "i \<in> id_user ` set (users (final cs))"
  shows "fst (remove i (final cs)) = Inr () \<and>
         fst (remove i (snd (remove i (final cs)))) = Inl (NotFoundException i)"
proof -
  let ?s = "final cs"
  let ?k = "nat (findIndex (\<lambda>user. id_user user = i) (users ?s))"
  note p = first_position[OF assms]
  have "distinct (map id_user (users ?s))"
    using fresh_ids_final[of cs] by (simp add: fresh_ids_def)
  from splice_distinct_absent[OF this p(1)]
  have "i \<notin> id_user ` set (users (snd (remove i ?s)))"
    by (simp add: remove_succeeds[OF assms] p(2))
  then show ?thesis
    by (simp add: remove_succeeds[OF assms] remove_fails)
qed

theorem remove_twice_witness:
  "1 \<in> id_user ` set (users (final [Create john, Create jane])) \<and>
   fst (remove 1 (final [Create john, Create jane])) = Inr () \<and>
   fst (remove 1 (snd (remove 1 (final [Create john, Create jane]))))
     = Inl (NotFoundException 1)"
proof -
  have h: "1 \<in> id_user ` set (users (final [Create john, Create jane]))"
    by (simp add: example_state)
  from h remove_twice[OF h] show ?thesis by simp
qed

text \<open>
  C8.  The claim that callers get copies does not hold of the code: a write through the
  reference that \<^verbatim>\<open>create\<close>, \<^verbatim>\<open>findOne\<close> or \<^verbatim>\<open>update\<close> returned, and a \<^verbatim>\<open>pop\<close> on the array
  that \<^verbatim>\<open>findAll\<close> returned, each change the state of the service.
\<close>

theorem returned_value_is_alias:
  "view (assign_name (fst (create_ref john init_ref)) (Str ''Mallory'') (snd (create_ref john init_ref)))
     \<noteq> view (snd (create_ref john init_ref)) \<and>
   fst (findOne_ref 1 (snd (create_ref john init_ref))) = Inr 0 \<and>
   view (assign_name 0 (Str ''Mallory'') (snd (findOne_ref 1 (snd (create_ref john init_ref)))))
     \<noteq> view (snd (findOne_ref 1 (snd (create_ref john init_ref)))) \<and>
   fst (update_ref 1 jonathan (snd (create_ref john init_ref))) = Inr 1 \<and>
   view (assign_name 1 (Str ''Mallory'') (snd (update_ref 1 jonathan (snd (create_ref john init_ref)))))
     \<noteq> view (snd (update_ref 1 jonathan (snd (create_ref john init_ref)))) \<and>
   view (array_pop (fst (findAll_ref (snd (create_ref john init_ref)))) (snd (create_ref john init_ref)))
     \<noteq> view (snd (create_ref john init_ref))"
  by (simp add: example_world view_def assign_name_def array_pop_def findOne_ref_def
      update_ref_def findAll_ref_def findIndex_def spread_def jonathan_def Let_def)

text \<open>
  C8, as the code has it.  The methods return references into the collection, not copies:
  \<^verbatim>\<open>findAll\<close> returns the array of the field \<^verbatim>\<open>users\<close> itself, \<^verbatim>\<open>create\<close> returns the element it
  has pushed, \<^verbatim>\<open>findOne\<close> returns an element of the array, and \<^verbatim>\<open>update\<close> returns an element
  of the array as it is after the call.  Hence an assignment to a property through an
  element of the array shows in the state of the service, at that element's position, and
  a \<^verbatim>\<open>pop\<close> on the array takes the last record off the collection.
\<close>

theorem returned_references:
  assumes "allocated w"
  shows "fst (findAll_ref w) = this_users w \<and>
         last (arrays (snd (create_ref dto w)) ! this_users (snd (create_ref dto w)))
           = fst (create_ref dto w) \<and>
         (\<forall>r. fst (findOne_ref i w) = Inr r \<longrightarrow> r \<in> set (arrays w ! this_users w)) \<and>
         (\<forall>r. fst (update_ref i upd w) = Inr r \<longrightarrow>
              r \<in> set (arrays (snd (update_ref i upd w)) ! this_users (snd (update_ref i upd w)))) \<and>
         (\<forall>k < length (arrays w ! this_users w).
              users (view (assign_name (arrays w ! this_users w ! k) v w)) ! k
                = (users (view w) ! k)\<lparr>name := v\<rparr>) \<and>
         users (view (array_pop (this_users w) w)) = butlast (users (view w))"
proof (intro conjI allI impI)
  let ?arr = "arrays w ! this_users w"
  have a: "this_users w < length (arrays w)" "\<forall>r\<in>set ?arr. r < length (objects w)"
    using assms by (simp_all add: allocated_def)
  show "fst (findAll_ref w) = this_users w" by (simp add: findAll_ref_def)
  show "last (arrays (snd (create_ref dto w)) ! this_users (snd (create_ref dto w)))
           = fst (create_ref dto w)"
    using a(1) by (simp add: create_ref_def Let_def)
  show "r \<in> set ?arr" if "fst (findOne_ref i w) = Inr r" for r
    using that by (rule findOne_ref_mem)
  show "r \<in> set (arrays (snd (update_ref i upd w)) ! this_users (snd (update_ref i upd w)))"
    if r: "fst (update_ref i upd w) = Inr r" for r
  proof (cases "findIndex (\<lambda>user. id_user (objects w ! user) = i) ?arr = - 1")
    case True
    with r show ?thesis by (simp add: update_ref_def)
  next
    case False
    from findIndex_some(2)[OF False]
    have k: "nat (findIndex (\<lambda>user. id_user (objects w ! user) = i) ?arr) < length ?arr" .
    with r False a(1) show ?thesis
      by (auto simp: update_ref_def Let_def set_update_memI)
  qed
  show "users (view (assign_name (?arr ! k) v w)) ! k = (users (view w) ! k)\<lparr>name := v\<rparr>"
    if "k < length ?arr" for k
    using that a(2) by (simp add: view_def assign_name_def)
  show "users (view (array_pop (this_users w) w)) = butlast (users (view w))"
    using a(1) by (simp add: view_def array_pop_def map_butlast)
qed

theorem returned_references_witness:
  "allocated (snd (create_ref john init_ref)) \<and>
   fst (findAll_ref (snd (create_ref john init_ref))) = 0 \<and>
   fst (findOne_ref 1 (snd (create_ref john init_ref))) = Inr 0 \<and>
   0 \<in> set (arrays (snd (create_ref john init_ref)) ! this_users (snd (create_ref john init_ref))) \<and>
   users (view (assign_name 0 (Str ''Mallory'') (snd (create_ref john init_ref))))
     = [\<lparr>id_user = 1, name = (Str ''Mallory''), email = Str ''john@example.com''\<rparr>] \<and>
   users (view (array_pop 0 (snd (create_ref john init_ref)))) = []"
proof -
  let ?w = "snd (create_ref john init_ref)"
  have h: "allocated ?w" by (simp add: example_world allocated_def)
  have f: "fst (findOne_ref 1 ?w) = Inr 0"
    by (simp add: example_world findOne_ref_def)
  note r = returned_references[OF h, of john 1 jonathan "(Str ''Mallory'')"]
  from r have "fst (findAll_ref ?w) = this_users ?w" by blast
  then have c1: "fst (findAll_ref ?w) = 0" by (simp add: example_world)
  from r f have c2: "0 \<in> set (arrays ?w ! this_users ?w)" by blast
  have "0 < length (arrays ?w ! this_users ?w)" by (simp add: example_world)
  with r have "users (view (assign_name (arrays ?w ! this_users ?w ! 0) (Str ''Mallory'') ?w)) ! 0
                = (users (view ?w) ! 0)\<lparr>name := (Str ''Mallory'')\<rparr>" by blast
  then have e: "users (view (assign_name 0 (Str ''Mallory'') ?w)) ! 0
                = \<lparr>id_user = 1, name = (Str ''Mallory''), email = Str ''john@example.com''\<rparr>"
    by (simp add: example_world view_def)
  have "length (users (view (assign_name 0 (Str ''Mallory'') ?w))) = 1"
    by (simp add: example_world view_def assign_name_def)
  then have "users (view (assign_name 0 (Str ''Mallory'') ?w)) = [users (view (assign_name 0 (Str ''Mallory'') ?w)) ! 0]"
    by (cases "users (view (assign_name 0 (Str ''Mallory'') ?w))") auto
  with e have c3: "users (view (assign_name 0 (Str ''Mallory'') ?w))
                = [\<lparr>id_user = 1, name = (Str ''Mallory''), email = Str ''john@example.com''\<rparr>]" by simp
  from r have "users (view (array_pop (this_users ?w) ?w)) = butlast (users (view ?w))" by blast
  then have c4: "users (view (array_pop 0 ?w)) = []"
    by (simp add: example_world view_def)
  from h c1 f c2 c3 c4 show ?thesis by blast
qed

text \<open>
  C9.  After any sequence of calls on a new service, the ids handed out by the \<^verbatim>\<open>create\<close>
  calls are, in the order of the calls, 1, 2, \<dots>, \<open>n\<close>, where \<open>n\<close> is the number of
  \<^verbatim>\<open>create\<close> calls: the \<open>n\<close>-th \<^verbatim>\<open>create\<close> returns id \<open>n\<close>, whatever was removed in between.
\<close>

theorem created_ids_consecutive:
  "created_ids (outcomes cs) = [1..int (count_creates cs)]"
  by (simp add: outcomes_def created_ids_run run_currentId init_def)

text \<open>
  C10.  When no record of the collection has id \<open>i\<close>, the calls \<^verbatim>\<open>findOne\<close>, \<^verbatim>\<open>update\<close> and
  \<^verbatim>\<open>remove\<close> with \<open>i\<close> throw and leave both fields of the service as they were.
\<close>

theorem failed_call_unchanged:
  assumes "i \<notin> id_user ` set (users s)"
  shows "findOne i s = (Inl (NotFoundException i), s) \<and>
         update i dto s = (Inl (NotFoundException i), s) \<and>
         remove i s = (Inl (NotFoundException i), s)"
  using assms by (simp add: findOne_eq update_fails remove_fails)

theorem failed_call_unchanged_witness:
  "999 \<notin> id_user ` set (users (final [Create john, Create jane])) \<and>
   findOne 999 (final [Create john, Create jane])
     = (Inl (NotFoundException 999), final [Create john, Create jane]) \<and>
   update 999 jonathan (final [Create john, Create jane])
     = (Inl (NotFoundException 999), final [Create john, Create jane]) \<and>
   remove 999 (final [Create john, Create jane])
     = (Inl (NotFoundException 999), final [Create john, Create jane])"
proof -
  have h: "999 \<notin> id_user ` set (users (final [Create john, Create jane]))"
    by (simp add: example_state)
  from h failed_call_unchanged[OF h] show ?thesis by simp
qed

end
